theory Spec2Isabelle
  imports Main "HOL-Library.Word" "HOL-Library.Signed_Division" "HOL-Library.DAList"
begin

unbundle bit_operations_syntax

section \<open>Data of cache.go\<close>

text \<open>
  Go's \<open>int\<close> is taken at 64 bits (amd64, arm64), \<open>uint32\<close> and \<open>int32\<close> at 32.
  The one place where the width of \<open>int\<close> decides the result is the shard index; what
  a 32-bit \<open>int\<close> makes of it is kept apart, in definitions named \<open>_int32\<close>.
\<close>

type_synonym go_int = "64 word"
type_synonym uint32 = "32 word"
type_synonym int32 = "32 word"

record DiskStatus =
  ID :: string
  Health :: go_int
  Temp :: go_int

text \<open>
  A value of type \<open>*DiskStatus\<close>: \<open>None\<close> is the nil pointer. The caches only store and
  return such pointers and never read or write through them, so the model keeps the
  record a pointer refers to in place of its address.
\<close>

type_synonym DiskStatus_ptr = "DiskStatus option"

datatype panic = IndexOutOfRange | NilMapAssignment | InterfaceConversion

subsection \<open>Map objects\<close>

text \<open>
  A Go map value is a reference: either nil or the address of a map object that every
  copy of the reference shares. The store holds the map objects allocated so far; an
  object is a finite table with one entry per key. \<open>next_addr\<close> is the first address
  not yet handed out by \<open>make\<close>.
\<close>

type_synonym addr = nat
type_synonym entries = "(string, DiskStatus_ptr) alist"

datatype map_ref = NilMap | MapAt addr

record store =
  objs :: "addr \<Rightarrow> entries"
  next_addr :: addr

text \<open>\<open>make(map[string]*DiskStatus)\<close>, also with a capacity hint.\<close>

definition make_map :: "store \<Rightarrow> map_ref \<times> store" where
  "make_map s =
     (MapAt (next_addr s),
      s\<lparr>objs := (objs s)(next_addr s := DAList.empty), next_addr := Suc (next_addr s)\<rparr>)"

text \<open>\<open>m[k]\<close> as an expression: the zero value nil for a missing key and for a nil map.\<close>

fun map_index :: "store \<Rightarrow> map_ref \<Rightarrow> string \<Rightarrow> DiskStatus_ptr" where
  "map_index s NilMap k = None"
| "map_index s (MapAt a) k = (case DAList.lookup (objs s a) k of None \<Rightarrow> None | Some p \<Rightarrow> p)"

text \<open>\<open>m[k] = v\<close>: in place, on the shared object; a nil map panics.\<close>

fun map_assign :: "store \<Rightarrow> map_ref \<Rightarrow> string \<Rightarrow> DiskStatus_ptr \<Rightarrow> panic + store" where
  "map_assign s NilMap k v = Inl NilMapAssignment"
| "map_assign s (MapAt a) k v = Inr (s\<lparr>objs := (objs s)(a := DAList.update k v (objs s a))\<rparr>)"

text \<open>
  The entries \<open>range m\<close> visits. Go leaves the order open; the model visits them in the
  order of the table. A nil map has none.
\<close>

fun map_range :: "store \<Rightarrow> map_ref \<Rightarrow> (string \<times> DiskStatus_ptr) list" where
  "map_range s NilMap = []"
| "map_range s (MapAt a) = DAList.impl_of (objs s a)"

subsection \<open>Interface values\<close>

text \<open>
  \<open>sync.Map\<close> and \<open>atomic.Value\<close> hold values of type \<open>any\<close>. The program puts two
  dynamic types into them; \<open>nil_iface\<close> is the nil interface, which \<open>Load\<close> returns
  when nothing was stored.
\<close>

datatype any = nil_iface | DiskStatus_iface DiskStatus_ptr | map_iface map_ref


fun assert_map :: "any \<Rightarrow> panic + map_ref" where
  "assert_map (map_iface m) = Inr m"
| "assert_map v = Inl InterfaceConversion"

section \<open>1. MutexCache\<close>

text \<open>
  \<open>sync.Mutex\<close> and \<open>sync.RWMutex\<close> are library objects: \<open>Lock\<close> and \<open>RLock\<close> on a
  free mutex return at once, and every method below releases what it acquired before it
  returns. In a sequential run each call finds the mutex free and leaves it free, so the
  records keep the maps only.
\<close>

record MutexCache =
  disks :: map_ref


definition MutexCache_Get :: "MutexCache \<Rightarrow> store \<Rightarrow> string \<Rightarrow> DiskStatus_ptr" where
  "MutexCache_Get c s ident = map_index s (MutexCache.disks c) ident"

definition MutexCache_Update ::
  "MutexCache \<Rightarrow> store \<Rightarrow> string \<Rightarrow> DiskStatus_ptr \<Rightarrow> panic + store" where
  "MutexCache_Update c s ident status = map_assign s (MutexCache.disks c) ident status"

section \<open>2. RWMutexCache\<close>

record RWMutexCache =
  disks :: map_ref




section \<open>3. ShardedCache\<close>

definition ShardCount :: int where
  "ShardCount = 32"

text \<open>
  \<open>hash/fnv\<close>: \<open>New32a\<close> starts from the offset basis, \<open>Write\<close> folds each byte in
  with exclusive-or and then multiplies by the prime, in \<open>uint32\<close> arithmetic;
  \<open>Sum32\<close> reads the state. A Go string converts to its bytes; an Isabelle \<open>char\<close> is
  one byte.
\<close>

definition offset32 :: uint32 where
  "offset32 = 2166136261"

definition prime32 :: uint32 where
  "prime32 = 16777619"

definition New32a :: uint32 where
  "New32a = offset32"

fun sum32a_Write :: "uint32 \<Rightarrow> string \<Rightarrow> uint32" where
  "sum32a_Write hash [] = hash"
| "sum32a_Write hash (c # data) = sum32a_Write ((hash XOR of_char c) * prime32) data"

definition sum32a_Sum32 :: "uint32 \<Rightarrow> uint32" where
  "sum32a_Sum32 hash = hash"

text \<open>
  \<open>int(x)\<close> of a \<open>uint32\<close> extends with zeros to the width of \<open>int\<close>; \<open>%\<close> on \<open>int\<close>
  truncates towards zero (\<open>smod\<close>). The result is read as a signed number.
\<close>

definition int_of_uint32 :: "uint32 \<Rightarrow> go_int" where
  "int_of_uint32 x = ucast x"

definition go_rem :: "go_int \<Rightarrow> int \<Rightarrow> int" where
  "go_rem a n = sint a smod n"

text \<open>
  The shard array \<open>[ShardCount]struct{mu; disks}\<close>: a function of the index, of which
  the places \<open>0\<close> to \<open>31\<close> exist. Indexing checks the bound, as Go does at run time.
\<close>

definition array_at :: "(nat \<Rightarrow> 'a) \<Rightarrow> int \<Rightarrow> panic + 'a" where
  "array_at arr i = (if 0 \<le> i \<and> i < 32 then Inr (arr (nat i)) else Inl IndexOutOfRange)"

record ShardedCache =
  shards :: "nat \<Rightarrow> map_ref"

function NewShardedCache_loop :: "nat \<Rightarrow> ShardedCache \<Rightarrow> store \<Rightarrow> ShardedCache \<times> store" where
  "NewShardedCache_loop i c s =
     (if int i < ShardCount
      then (case make_map s of (m, s') \<Rightarrow>
              NewShardedCache_loop (Suc i) (c\<lparr>shards := (shards c)(i := m)\<rparr>) s')
      else (c, s))"
  by pat_completeness auto
termination
  by (relation "measure (\<lambda>(i, c, s). 32 - i)") (auto simp: ShardCount_def)

declare NewShardedCache_loop.simps [simp del]

definition NewShardedCache :: "store \<Rightarrow> ShardedCache \<times> store" where
  "NewShardedCache s = NewShardedCache_loop 0 \<lparr>shards = (\<lambda>i. NilMap)\<rparr> s"

definition ShardedCache_getShard :: "ShardedCache \<Rightarrow> string \<Rightarrow> int" where
  "ShardedCache_getShard c ident =
     (let h = sum32a_Write New32a ident
      in go_rem (int_of_uint32 (sum32a_Sum32 h)) ShardCount)"

definition ShardedCache_Get ::
  "ShardedCache \<Rightarrow> store \<Rightarrow> string \<Rightarrow> panic + DiskStatus_ptr" where
  "ShardedCache_Get c s ident =
     (case array_at (shards c) (ShardedCache_getShard c ident) of
        Inl e \<Rightarrow> Inl e
      | Inr shard \<Rightarrow> Inr (map_index s shard ident))"

definition ShardedCache_Update ::
  "ShardedCache \<Rightarrow> store \<Rightarrow> string \<Rightarrow> DiskStatus_ptr \<Rightarrow> panic + store" where
  "ShardedCache_Update c s ident status =
     (case array_at (shards c) (ShardedCache_getShard c ident) of
        Inl e \<Rightarrow> Inl e
      | Inr shard \<Rightarrow> map_assign s shard ident status)"

section \<open>4. SyncMapCache\<close>

text \<open>
  \<open>sync.Map\<close> is a struct held by value in the cache; the model keeps its table.
  \<open>Load\<close> returns the value and whether the key is present, \<open>Store\<close> sets the key.
\<close>

type_synonym sync_Map = "string \<rightharpoonup> any"



record SyncMapCache =
  disks :: sync_Map




section \<open>5. SpinLockCache\<close>

text \<open>
  The lock is a field of the cache and the loop that takes it is code of the cache.
  \<open>CompareAndSwapInt32(&c.lock, 0, 1)\<close> succeeds when the lock is \<open>0\<close> and sets it to
  \<open>1\<close>. In a sequential run nothing else writes the lock between two attempts, so on a
  held lock the loop never ends: the result \<open>None\<close>.
\<close>

record SpinLockCache =
  lock :: int32
  disks :: map_ref


partial_function (option) spin_acquire :: "SpinLockCache \<Rightarrow> SpinLockCache option" where
  "spin_acquire c = (if lock c = 0 then Some (c\<lparr>lock := 1\<rparr>) else spin_acquire c)"



section \<open>6. COWCache\<close>

text \<open>
  \<open>atomic.Value\<close> holds one interface value, nil until the first \<open>Store\<close>.
  \<open>Load\<close> reads it and \<open>Store\<close> replaces it. \<open>Store\<close> panics on a nil interface
  and on a value whose type differs from that of the first one stored; every \<open>Store\<close> of
  the program passes a map it has just made.
\<close>

type_synonym atomic_Value = any

definition atomic_Load :: "atomic_Value \<Rightarrow> any" where
  "atomic_Load v = v"

definition atomic_Store :: "atomic_Value \<Rightarrow> any \<Rightarrow> atomic_Value" where
  "atomic_Store v x = x"

record COWCache =
  disks :: atomic_Value

definition NewCOWCache :: "store \<Rightarrow> COWCache \<times> store" where
  "NewCOWCache s =
     (case make_map s of (m, s') \<Rightarrow>
        (\<lparr>COWCache.disks = atomic_Store nil_iface (map_iface m)\<rparr>, s'))"

definition COWCache_Get :: "COWCache \<Rightarrow> store \<Rightarrow> string \<Rightarrow> panic + DiskStatus_ptr" where
  "COWCache_Get c s ident =
     (case assert_map (atomic_Load (COWCache.disks c)) of
        Inl e \<Rightarrow> Inl e
      | Inr m \<Rightarrow> Inr (map_index s m ident))"

text \<open>The loop \<open>for k, v := range old { new[k] = v }\<close>, over the entries still to visit.\<close>

fun copy_loop :: "(string \<times> DiskStatus_ptr) list \<Rightarrow> map_ref \<Rightarrow> store \<Rightarrow> panic + store" where
  "copy_loop [] new s = Inr s"
| "copy_loop ((k, v) # kvs) new s =
     (case map_assign s new k v of
        Inl e \<Rightarrow> Inl e
      | Inr s' \<Rightarrow> copy_loop kvs new s')"

text \<open>
  The body of \<open>COWCache.Update\<close> between its \<open>Load\<close> and its \<open>Store\<close>: make the new
  map, copy the old one into it, set the key. \<open>HybridCache.UpdateCold\<close> has the same
  lines.
\<close>

definition copy_with :: "map_ref \<Rightarrow> store \<Rightarrow> string \<Rightarrow> DiskStatus_ptr \<Rightarrow> panic + map_ref \<times> store" where
  "copy_with old s ident status =
     (case make_map s of (new, s1) \<Rightarrow>
        (case copy_loop (map_range s1 old) new s1 of
           Inl e \<Rightarrow> Inl e
         | Inr s2 \<Rightarrow>
             (case map_assign s2 new ident status of
                Inl e \<Rightarrow> Inl e
              | Inr s3 \<Rightarrow> Inr (new, s3))))"

definition COWCache_Update ::
  "COWCache \<Rightarrow> store \<Rightarrow> string \<Rightarrow> DiskStatus_ptr \<Rightarrow> panic + COWCache \<times> store" where
  "COWCache_Update c s ident status =
     (case assert_map (atomic_Load (COWCache.disks c)) of
        Inl e \<Rightarrow> Inl e
      | Inr old \<Rightarrow>
          (case copy_with old s ident status of
             Inl e \<Rightarrow> Inl e
           | Inr (new, s') \<Rightarrow>
               Inr (c\<lparr>COWCache.disks := atomic_Store (COWCache.disks c) (map_iface new)\<rparr>, s')))"

section \<open>7. HybridCache\<close>

record HybridCache =
  hot :: "nat \<Rightarrow> map_ref"
  cold :: atomic_Value

function NewHybridCache_loop :: "nat \<Rightarrow> HybridCache \<Rightarrow> store \<Rightarrow> HybridCache \<times> store" where
  "NewHybridCache_loop i c s =
     (if i < 32
      then (case make_map s of (m, s') \<Rightarrow>
              NewHybridCache_loop (Suc i) (c\<lparr>hot := (hot c)(i := m)\<rparr>) s')
      else (c, s))"
  by pat_completeness auto
termination
  by (relation "measure (\<lambda>(i, c, s). 32 - i)") auto

declare NewHybridCache_loop.simps [simp del]

definition NewHybridCache :: "store \<Rightarrow> HybridCache \<times> store" where
  "NewHybridCache s =
     (case NewHybridCache_loop 0 \<lparr>hot = (\<lambda>i. NilMap), cold = nil_iface\<rparr> s of
        (c, s1) \<Rightarrow>
          (case make_map s1 of (m, s2) \<Rightarrow>
             (c\<lparr>cold := atomic_Store (cold c) (map_iface m)\<rparr>, s2)))"

definition HybridCache_getShard :: "HybridCache \<Rightarrow> string \<Rightarrow> int" where
  "HybridCache_getShard c ident =
     (let h = sum32a_Write New32a ident
      in go_rem (int_of_uint32 (sum32a_Sum32 h)) 32)"

definition HybridCache_Get :: "HybridCache \<Rightarrow> store \<Rightarrow> string \<Rightarrow> panic + DiskStatus_ptr" where
  "HybridCache_Get c s ident =
     (case array_at (hot c) (HybridCache_getShard c ident) of
        Inl e \<Rightarrow> Inl e
      | Inr shard \<Rightarrow>
          (let status = map_index s shard ident
           in if status \<noteq> None then Inr status
              else (case assert_map (atomic_Load (cold c)) of
                      Inl e \<Rightarrow> Inl e
                    | Inr m \<Rightarrow> Inr (map_index s m ident))))"

definition HybridCache_Update ::
  "HybridCache \<Rightarrow> store \<Rightarrow> string \<Rightarrow> DiskStatus_ptr \<Rightarrow> panic + store" where
  "HybridCache_Update c s ident status =
     (case array_at (hot c) (HybridCache_getShard c ident) of
        Inl e \<Rightarrow> Inl e
      | Inr shard \<Rightarrow> map_assign s shard ident status)"

definition HybridCache_UpdateCold ::
  "HybridCache \<Rightarrow> store \<Rightarrow> string \<Rightarrow> DiskStatus_ptr \<Rightarrow> panic + HybridCache \<times> store" where
  "HybridCache_UpdateCold c s ident status =
     (case assert_map (atomic_Load (cold c)) of
        Inl e \<Rightarrow> Inl e
      | Inr old \<Rightarrow>
          (case copy_with old s ident status of
             Inl e \<Rightarrow> Inl e
           | Inr (new, s') \<Rightarrow>
               Inr (c\<lparr>cold := atomic_Store (cold c) (map_iface new)\<rparr>, s')))"

section \<open>Well-formed caches\<close>

text \<open>
  What the constructors establish and every operation keeps: each map of a cache was made
  by \<open>make\<close> in the store at hand, the spin lock is free between calls, an
  \<open>atomic.Value\<close> holds a map, and the cold map of a hybrid cache is none of its hot
  shards.
\<close>

fun live :: "store \<Rightarrow> map_ref \<Rightarrow> bool" where
  "live s NilMap = False"
| "live s (MapAt a) = (a < next_addr s)"

fun holds_live_map :: "store \<Rightarrow> any \<Rightarrow> bool" where
  "holds_live_map s (map_iface m) = live s m"
| "holds_live_map s v = False"





definition COWCache_inv :: "COWCache \<Rightarrow> store \<Rightarrow> bool" where
  "COWCache_inv c s = holds_live_map s (COWCache.disks c)"

definition HybridCache_inv :: "HybridCache \<Rightarrow> store \<Rightarrow> bool" where
  "HybridCache_inv c s =
     ((\<forall>i \<in> {..<32}. live s (hot c i) \<and> cold c \<noteq> map_iface (hot c i))
      \<and> holds_live_map s (cold c))"

text \<open>
  The state of a constructor's loop after \<open>n\<close> rounds: the first \<open>n\<close> places of the
  array hold maps made in the store, all of them empty.
\<close>

definition fresh_upto :: "nat \<Rightarrow> (nat \<Rightarrow> map_ref) \<Rightarrow> store \<Rightarrow> bool" where
  "fresh_upto n arr s = (\<forall>j<n. live s (arr j) \<and> (\<forall>k. map_index s (arr j) k = None))"

section \<open>Sequential clients\<close>






type_synonym cache_write = "string \<times> DiskStatus_ptr"











text \<open>The pointer the last write to \<open>k\<close> in \<open>ws\<close> stored, nil when there is none.\<close>

definition last_write :: "cache_write list \<Rightarrow> string \<Rightarrow> DiskStatus_ptr" where
  "last_write ws k =
     (case filter (\<lambda>w. fst w = k) ws of [] \<Rightarrow> None | w # ws' \<Rightarrow> snd (last (w # ws')))"

text \<open>What a read of the hot tier alone and of the cold tier alone finds for a key.\<close>

definition HybridCache_hot_lookup :: "HybridCache \<Rightarrow> store \<Rightarrow> string \<Rightarrow> DiskStatus_ptr" where
  "HybridCache_hot_lookup c s k =
     (case array_at (hot c) (HybridCache_getShard c k) of
        Inl e \<Rightarrow> None
      | Inr shard \<Rightarrow> map_index s shard k)"

definition HybridCache_cold_lookup :: "HybridCache \<Rightarrow> store \<Rightarrow> string \<Rightarrow> DiskStatus_ptr" where
  "HybridCache_cold_lookup c s k =
     (case assert_map (atomic_Load (cold c)) of
        Inl e \<Rightarrow> None
      | Inr m \<Rightarrow> map_index s m k)"


text \<open>
  The record of the repository's correctness test, and a store in which nothing has been
  allocated yet.
\<close>

definition test_status :: DiskStatus where
  "test_status = \<lparr>ID = ''disk-1'', Health = 100, Temp = 45\<rparr>"

definition empty_store :: store where
  "empty_store = \<lparr>objs = (\<lambda>a. DAList.empty), next_addr = 0\<rparr>"

section \<open>Concurrent writers of a copy-on-write snapshot\<close>

text \<open>
  \<open>COWCache.Update\<close> and \<open>HybridCache.UpdateCold\<close> take no lock. Each touches the
  shared \<open>atomic.Value\<close> twice, in its \<open>Load\<close> and in its \<open>Store\<close>; between the two it
  reads the snapshot it loaded and writes a map only it knows. The operations of
  \<open>sync/atomic\<close> are sequentially consistent, so a run of several goroutines is an
  interleaving of three steps per call: load, copy, store. A writer is a call in progress:
  its arguments before the load, then the snapshot it loaded, then the map it built.
\<close>

datatype writer =
    Called string DiskStatus_ptr
  | Loaded string DiskStatus_ptr map_ref
  | Copied map_ref
  | Returned
  | Panicked panic

type_synonym shared = "atomic_Value \<times> store"

fun writer_step :: "shared \<times> writer \<Rightarrow> shared \<times> writer" where
  "writer_step ((cell, s), Called ident status) =
     (case assert_map (atomic_Load cell) of
        Inl e \<Rightarrow> ((cell, s), Panicked e)
      | Inr old \<Rightarrow> ((cell, s), Loaded ident status old))"
| "writer_step ((cell, s), Loaded ident status old) =
     (case copy_with old s ident status of
        Inl e \<Rightarrow> ((cell, s), Panicked e)
      | Inr (new, s') \<Rightarrow> ((cell, s'), Copied new))"
| "writer_step ((cell, s), Copied new) = ((atomic_Store cell (map_iface new), s), Returned)"
| "writer_step ((cell, s), Returned) = ((cell, s), Returned)"
| "writer_step ((cell, s), Panicked e) = ((cell, s), Panicked e)"

text \<open>
  A schedule names the writer that moves next, step by step; a number that names no
  writer moves none.
\<close>

fun schedule_step :: "nat \<Rightarrow> shared \<times> writer list \<Rightarrow> shared \<times> writer list" where
  "schedule_step i (sh, ws) =
     (if i < length ws
      then (case writer_step (sh, ws ! i) of (sh', w') \<Rightarrow> (sh', ws[i := w']))
      else (sh, ws))"

definition run_schedule :: "nat list \<Rightarrow> shared \<times> writer list \<Rightarrow> shared \<times> writer list" where
  "run_schedule sched st = fold schedule_step sched st"

definition all_returned :: "shared \<times> writer list \<Rightarrow> bool" where
  "all_returned st = list_all (\<lambda>w. w = Returned) (snd st)"

text \<open>What \<open>Get(k)\<close> reads through the \<open>atomic.Value\<close> of a state.\<close>

definition snapshot_Get :: "shared \<times> writer list \<Rightarrow> string \<Rightarrow> panic + DiskStatus_ptr" where
  "snapshot_Get st k = COWCache_Get \<lparr>COWCache.disks = fst (fst st)\<rparr> (snd (fst st)) k"

text \<open>
  What holds of a writer at every moment of a run in which all calls write records of
  \<open>vs\<close> to the key \<open>k\<close>.
\<close>

fun writer_ok :: "store \<Rightarrow> string \<Rightarrow> DiskStatus list \<Rightarrow> writer \<Rightarrow> bool" where
  "writer_ok s k vs (Called ident status) = (ident = k \<and> status \<in> Some ` set vs)"
| "writer_ok s k vs (Loaded ident status old) =
     (ident = k \<and> status \<in> Some ` set vs \<and> live s old)"
| "writer_ok s k vs (Copied new) = (live s new \<and> map_index s new k \<in> Some ` set vs)"
| "writer_ok s k vs Returned = True"
| "writer_ok s k vs (Panicked e) = False"

definition race_inv :: "string \<Rightarrow> DiskStatus list \<Rightarrow> shared \<times> writer list \<Rightarrow> bool" where
  "race_inv k vs st =
     (case st of ((cell, s), ws) \<Rightarrow>
        holds_live_map s cell
        \<and> list_all (writer_ok s k vs) ws
        \<and> (list_ex (\<lambda>w. w = Returned) ws \<longrightarrow>
             snapshot_Get st k \<in> (\<lambda>v. Inr (Some v)) ` set vs))"

text \<open>Two more records for the runs below.\<close>

definition worn_status :: DiskStatus where
  "worn_status = \<lparr>ID = ''disk-1'', Health = 80, Temp = 60\<rparr>"

definition other_status :: DiskStatus where
  "other_status = \<lparr>ID = ''disk-2'', Health = 90, Temp = 50\<rparr>"

text \<open>
  Go fixes the width of \<open>int\<close> per platform, at 32 or at 64 bits, and \<open>cache.go\<close>
  builds for both. Where \<open>int\<close> has 32 bits, \<open>int(x)\<close> of a \<open>uint32\<close> keeps the bits,
  and the top bit becomes the sign. \<open>getShard\<close> of both caches, and the methods that
  index with it, as such a build runs them:
\<close>

definition getShard_int32 :: "string \<Rightarrow> int" where
  "getShard_int32 ident =
     (let h = sum32a_Write New32a ident
      in sint (sum32a_Sum32 h) smod ShardCount)"

definition ShardedCache_Get_int32 ::
  "ShardedCache \<Rightarrow> store \<Rightarrow> string \<Rightarrow> panic + DiskStatus_ptr" where
  "ShardedCache_Get_int32 c s ident =
     (case array_at (shards c) (getShard_int32 ident) of
        Inl e \<Rightarrow> Inl e
      | Inr shard \<Rightarrow> Inr (map_index s shard ident))"

definition ShardedCache_Update_int32 ::
  "ShardedCache \<Rightarrow> store \<Rightarrow> string \<Rightarrow> DiskStatus_ptr \<Rightarrow> panic + store" where
  "ShardedCache_Update_int32 c s ident status =
     (case array_at (shards c) (getShard_int32 ident) of
        Inl e \<Rightarrow> Inl e
      | Inr shard \<Rightarrow> map_assign s shard ident status)"

definition HybridCache_Get_int32 ::
  "HybridCache \<Rightarrow> store \<Rightarrow> string \<Rightarrow> panic + DiskStatus_ptr" where
  "HybridCache_Get_int32 c s ident =
     (case array_at (hot c) (getShard_int32 ident) of
        Inl e \<Rightarrow> Inl e
      | Inr shard \<Rightarrow>
          (let status = map_index s shard ident
           in if status \<noteq> None then Inr status
              else (case assert_map (atomic_Load (cold c)) of
                      Inl e \<Rightarrow> Inl e
                    | Inr m \<Rightarrow> Inr (map_index s m ident))))"

definition HybridCache_Update_int32 ::
  "HybridCache \<Rightarrow> store \<Rightarrow> string \<Rightarrow> DiskStatus_ptr \<Rightarrow> panic + store" where
  "HybridCache_Update_int32 c s ident status =
     (case array_at (hot c) (getShard_int32 ident) of
        Inl e \<Rightarrow> Inl e
      | Inr shard \<Rightarrow> map_assign s shard ident status)"

section \<open>Shard routing as the specification words it\<close>

text \<open>
  FNV-1a at 32 bits on numbers: start from the offset basis; for each byte, exclusive-or
  it into the hash, then multiply by the FNV prime modulo \<open>2 ^ 32\<close>. The shard of an
  id is its hash modulo the shard count \<open>S = 32\<close>.
\<close>

fun fnv1a_32 :: "int \<Rightarrow> string \<Rightarrow> int" where
  "fnv1a_32 h [] = h"
| "fnv1a_32 h (c # cs) = fnv1a_32 (((h XOR of_char c) * 16777619) mod 2 ^ 32) cs"

definition shard_index :: "string \<Rightarrow> int" where
  "shard_index ident = fnv1a_32 2166136261 ident mod 32"

section \<open>Shard routing\<close>

lemma uint_of_char_32: "uint (of_char c :: uint32) = of_char c"
proof -
  have "(of_char c :: uint32) = of_nat (of_char c)"
    by (simp add: of_nat_of_char)
  moreover have "(of_char c :: nat) < 2 ^ 32"
    by (rule less_trans [OF nat_of_char_less_256]) simp
  ultimately have "unat (of_char c :: uint32) = of_char c"
    by (simp add: unat_of_nat)
  then have "int (unat (of_char c :: uint32)) = int (of_char c)"
    by simp
  then show ?thesis
    by (simp add: of_nat_of_char)
qed

lemma uint_fnv_step:
  "uint ((h XOR of_char c) * prime32) = ((uint h XOR of_char c) * 16777619) mod 2 ^ 32"
  by (simp add: uint_word_ariths uint_xor uint_of_char_32 prime32_def)

lemma uint_sum32a_Write: "uint (sum32a_Write h data) = fnv1a_32 (uint h) data"
  by (induction data arbitrary: h) (simp_all add: uint_fnv_step del: of_char_Char)

lemma sint_int_of_uint32: "sint (int_of_uint32 w) = uint w"
proof -
  have "uint w < 2 ^ 32"
    using uint_bounded [of w] by simp
  then have "uint w < 2 ^ 63"
    by simp
  moreover have "- (2 ^ 63) \<le> uint w"
    by (rule order_trans [of _ 0]) simp_all
  ultimately show ?thesis
    by (simp add: int_of_uint32_def signed_ucast_eq signed_take_bit_int_eq_self)
qed

lemma smod_nonneg: "0 \<le> a \<Longrightarrow> a smod 32 = a mod (32 :: int)"
  by (simp add: smod_int_alt_def sgn_if)

lemma go_rem_int_of_uint32: "go_rem (int_of_uint32 w) 32 = uint w mod 32"
proof -
  have "uint w smod 32 = uint w mod 32"
    by (rule smod_nonneg) simp
  then show ?thesis
    by (simp add: go_rem_def sint_int_of_uint32)
qed

lemma ShardedCache_getShard_eq: "ShardedCache_getShard c ident = shard_index ident"
  by (simp add: ShardedCache_getShard_def ShardCount_def go_rem_int_of_uint32 sum32a_Sum32_def
      uint_sum32a_Write New32a_def offset32_def shard_index_def)

lemma HybridCache_getShard_eq: "HybridCache_getShard c ident = shard_index ident"
  by (simp add: HybridCache_getShard_def go_rem_int_of_uint32 sum32a_Sum32_def
      uint_sum32a_Write New32a_def offset32_def shard_index_def)

lemma shard_index_range: "0 \<le> shard_index ident \<and> shard_index ident < 32"
  by (simp add: shard_index_def)

lemma array_at_shard_index: "array_at arr (shard_index ident) = Inr (arr (nat (shard_index ident)))"
  using shard_index_range [of ident] by (simp add: array_at_def)

lemma nat_shard_index_less: "nat (shard_index ident) < 32"
  using shard_index_range [of ident] by arith

lemma ShardedCache_Get_shard:
  "ShardedCache_Get c s ident = Inr (map_index s (shards c (nat (shard_index ident))) ident)"
  by (simp add: ShardedCache_Get_def ShardedCache_getShard_eq array_at_shard_index)

lemma ShardedCache_Update_shard:
  "ShardedCache_Update c s ident status =
     map_assign s (shards c (nat (shard_index ident))) ident status"
  by (simp add: ShardedCache_Update_def ShardedCache_getShard_eq array_at_shard_index)

lemma HybridCache_Update_shard:
  "HybridCache_Update c s ident status =
     map_assign s (hot c (nat (shard_index ident))) ident status"
  by (simp add: HybridCache_Update_def HybridCache_getShard_eq array_at_shard_index)

lemma map_assign_no_index_panic: "map_assign s m k v \<noteq> Inl IndexOutOfRange"
  by (cases m) simp_all

lemma HybridCache_Get_no_index_panic: "HybridCache_Get c s ident \<noteq> Inl IndexOutOfRange"
  by (cases "cold c")
    (simp_all add: HybridCache_Get_def HybridCache_getShard_eq array_at_shard_index Let_def
      atomic_Load_def)


text \<open>
  With \<open>int\<close> at 64 bits, both \<open>getShard\<close> functions return an index from 0 to 31 for
  every id, and indexing the shard array in \<open>Get\<close> and \<open>Update\<close> yields the shard at
  that index.
\<close>

lemma getShard_in_bounds:
  "0 \<le> ShardedCache_getShard c ident \<and> ShardedCache_getShard c ident < 32
   \<and> 0 \<le> HybridCache_getShard h ident \<and> HybridCache_getShard h ident < 32
   \<and> array_at (shards c) (ShardedCache_getShard c ident)
       = Inr (shards c (nat (ShardedCache_getShard c ident)))
   \<and> array_at (hot h) (HybridCache_getShard h ident)
       = Inr (hot h (nat (HybridCache_getShard h ident)))
   \<and> ShardedCache_Get c s ident \<noteq> Inl IndexOutOfRange
   \<and> ShardedCache_Update c s ident status \<noteq> Inl IndexOutOfRange
   \<and> HybridCache_Get h s ident \<noteq> Inl IndexOutOfRange
   \<and> HybridCache_Update h s ident status \<noteq> Inl IndexOutOfRange"
  using shard_index_range [of ident]
  by (simp add: ShardedCache_getShard_eq HybridCache_getShard_eq array_at_shard_index
      ShardedCache_Get_shard ShardedCache_Update_shard HybridCache_Update_shard
      map_assign_no_index_panic HybridCache_Get_no_index_panic)

section \<open>Map objects in the store\<close>

lemma make_map_ref: "fst (make_map s) = MapAt (next_addr s)"
  by (simp add: make_map_def)

lemma make_map_next: "next_addr (snd (make_map s)) = Suc (next_addr s)"
  by (simp add: make_map_def)

lemma make_map_objs:
  "objs (snd (make_map s)) a = (if a = next_addr s then DAList.empty else objs s a)"
  by (simp add: make_map_def)

lemma make_map_live: "live s m \<Longrightarrow> live (snd (make_map s)) m"
  by (cases m) (simp_all add: make_map_next)

lemma make_map_index_old: "live s m \<Longrightarrow> map_index (snd (make_map s)) m k = map_index s m k"
  by (cases m) (simp_all add: make_map_objs)

lemma make_map_index_new: "map_index (snd (make_map s)) (MapAt (next_addr s)) k = None"
  by (simp add: make_map_objs)

lemma map_assign_live:
  assumes "live s m"
  shows "\<exists>s'. map_assign s m k v = Inr s' \<and> next_addr s' = next_addr s
           \<and> (\<forall>m' k'. map_index s' m' k' = (if m' = m \<and> k' = k then v else map_index s m' k'))
           \<and> (\<forall>a. MapAt a \<noteq> m \<longrightarrow> objs s' a = objs s a)"
proof (cases m)
  case NilMap
  with assms show ?thesis by simp
next
  case (MapAt a)
  let ?s' = "s\<lparr>objs := (objs s)(a := DAList.update k v (objs s a))\<rparr>"
  have "map_index ?s' m' k' = (if m' = m \<and> k' = k then v else map_index s m' k')" for m' k'
    using MapAt by (cases m') (simp_all add: DAList.lookup_update)
  with MapAt show ?thesis
    by (intro exI [of _ ?s']) simp
qed

lemma live_same_next: "next_addr s' = next_addr s \<Longrightarrow> live s' m = live s m"
  by (cases m) simp_all

subsection \<open>The copy loop\<close>

lemma copy_loop_MapAt:
  "copy_loop kvs (MapAt a) s =
     Inr (s\<lparr>objs := (objs s)(a := fold (\<lambda>(k, v). DAList.update k v) kvs (objs s a))\<rparr>)"
  by (induction kvs arbitrary: s) auto

lemma lookup_fold_update:
  "distinct (map fst kvs) \<Longrightarrow>
   DAList.lookup (fold (\<lambda>(k, v). DAList.update k v) kvs m) = DAList.lookup m ++ map_of kvs"
proof (induction kvs arbitrary: m)
  case Nil
  then show ?case by simp
next
  case (Cons kv kvs)
  obtain k v where kv: "kv = (k, v)" by (cases kv)
  from Cons.prems kv have notin: "k \<notin> fst ` set kvs" and dist: "distinct (map fst kvs)"
    by auto
  from notin have none: "map_of kvs k = None"
    by (simp add: map_of_eq_None_iff)
  have "DAList.lookup (fold (\<lambda>(k, v). DAList.update k v) kvs (DAList.update k v m))
        = DAList.lookup (DAList.update k v m) ++ map_of kvs"
    by (rule Cons.IH [OF dist])
  also have "\<dots> = DAList.lookup m ++ map_of ((k, v) # kvs)"
  proof (rule ext)
    fix x
    show "(DAList.lookup (DAList.update k v m) ++ map_of kvs) x
          = (DAList.lookup m ++ map_of ((k, v) # kvs)) x"
      using none
      by (auto simp: map_add_def DAList.lookup_update split: option.splits)
  qed
  finally show ?case by (simp only: kv fold_simps split_conv)
qed

lemma lookup_copy_of_entries:
  "DAList.lookup (fold (\<lambda>(k, v). DAList.update k v) (DAList.impl_of old) DAList.empty)
   = DAList.lookup old"
proof -
  have "DAList.lookup (fold (\<lambda>(k, v). DAList.update k v) (DAList.impl_of old) DAList.empty)
        = DAList.lookup DAList.empty ++ map_of (DAList.impl_of old)"
    by (rule lookup_fold_update) simp
  also have "\<dots> = DAList.lookup old"
  proof -
    have "map_of (DAList.impl_of old) = DAList.lookup old"
      by (simp add: DAList.lookup.rep_eq)
    then show ?thesis
      by (auto simp: map_add_def split: option.splits)
  qed
  finally show ?thesis .
qed

lemma copy_with_MapAt:
  assumes "b \<noteq> next_addr s"
  shows "copy_with (MapAt b) s k v =
     Inr (MapAt (next_addr s),
          s\<lparr>objs := (objs s)(next_addr s :=
                 DAList.update k v
                   (fold (\<lambda>(k, v). DAList.update k v) (DAList.impl_of (objs s b)) DAList.empty)),
            next_addr := Suc (next_addr s)\<rparr>)"
  using assms by (simp add: copy_with_def make_map_def copy_loop_MapAt)

lemma copy_with_live:
  assumes "live s old"
  shows "\<exists>s'. copy_with old s k v = Inr (MapAt (next_addr s), s')
           \<and> next_addr s' = Suc (next_addr s)
           \<and> (\<forall>a. a < next_addr s \<longrightarrow> objs s' a = objs s a)
           \<and> (\<forall>k'. map_index s' (MapAt (next_addr s)) k'
                     = (if k' = k then v else map_index s old k'))
           \<and> (\<forall>m k'. live s m \<longrightarrow> map_index s' m k' = map_index s m k')"
proof (cases old)
  case NilMap
  with assms show ?thesis by simp
next
  case (MapAt b)
  with assms have b: "b < next_addr s" by simp
  let ?new = "DAList.update k v
      (fold (\<lambda>(k, v). DAList.update k v) (DAList.impl_of (objs s b)) DAList.empty)"
  let ?s' = "s\<lparr>objs := (objs s)(next_addr s := ?new), next_addr := Suc (next_addr s)\<rparr>"
  have eq: "copy_with old s k v = Inr (MapAt (next_addr s), ?s')"
    unfolding MapAt by (rule copy_with_MapAt) (use b in simp)
  have new: "map_index ?s' (MapAt (next_addr s)) k' = (if k' = k then v else map_index s old k')"
    for k'
    by (simp add: MapAt DAList.lookup_update lookup_copy_of_entries)
  have old: "map_index ?s' m k' = map_index s m k'" if "live s m" for m k'
    using that by (cases m) simp_all
  show ?thesis
    by (intro exI [of _ ?s'] conjI allI impI) (use eq new old in simp_all)
qed

section \<open>Update then Get, on a well-formed cache\<close>










lemma holds_live_mapE:
  assumes "holds_live_map s x"
  obtains m where "x = map_iface m" and "live s m"
  using assms by (cases x) simp_all

lemma live_less: "live s m \<Longrightarrow> m \<noteq> MapAt (next_addr s)"
  by (cases m) auto

lemma live_grow: "live s m \<Longrightarrow> next_addr s \<le> next_addr s' \<Longrightarrow> live s' m"
  by (cases m) auto

lemma COWCache_Update_Get:
  assumes "COWCache_inv c s"
  shows "\<exists>c' s'. COWCache_Update c s k v = Inr (c', s') \<and> COWCache_inv c' s'
           \<and> COWCache.disks c' = map_iface (MapAt (next_addr s))
           \<and> next_addr s' = Suc (next_addr s)
           \<and> (\<forall>a. a < next_addr s \<longrightarrow> objs s' a = objs s a)
           \<and> (\<forall>k'. COWCache_Get c' s' k' = (if k' = k then Inr v else COWCache_Get c s k'))
           \<and> (\<forall>k'. COWCache_Get c s' k' = COWCache_Get c s k')"
proof -
  from assms obtain old where old: "COWCache.disks c = map_iface old" and live: "live s old"
    by (auto simp: COWCache_inv_def elim: holds_live_mapE)
  from copy_with_live [OF live, of k v] obtain s' where
      cp: "copy_with old s k v = Inr (MapAt (next_addr s), s')"
      and nxt: "next_addr s' = Suc (next_addr s)"
      and frame: "\<And>a. a < next_addr s \<Longrightarrow> objs s' a = objs s a"
      and new: "\<And>k'. map_index s' (MapAt (next_addr s)) k'
                  = (if k' = k then v else map_index s old k')"
      and keep: "\<And>m k'. live s m \<Longrightarrow> map_index s' m k' = map_index s m k'"
    by blast
  let ?c' = "c\<lparr>COWCache.disks := map_iface (MapAt (next_addr s))\<rparr>"
  have "COWCache_Update c s k v = Inr (?c', s')"
    by (simp add: COWCache_Update_def old cp atomic_Load_def atomic_Store_def)
  moreover have "COWCache_inv ?c' s'"
    by (simp add: COWCache_inv_def nxt)
  moreover have "COWCache_Get ?c' s' k' = (if k' = k then Inr v else COWCache_Get c s k')" for k'
    by (simp add: COWCache_Get_def atomic_Load_def old new del: map_index.simps)
  moreover have "COWCache_Get c s' k' = COWCache_Get c s k'" for k'
    by (simp add: COWCache_Get_def atomic_Load_def old keep [OF live])
  ultimately show ?thesis
    using nxt frame by (intro exI [of _ ?c'] exI [of _ s']) simp
qed

section \<open>The hybrid cache\<close>

lemma HybridCache_hot_lookup_shard:
  "HybridCache_hot_lookup c s k = map_index s (hot c (nat (shard_index k))) k"
  by (simp add: HybridCache_hot_lookup_def HybridCache_getShard_eq array_at_shard_index)

lemma HybridCache_Get_tiers:
  "holds_live_map s (cold c) \<Longrightarrow>
   HybridCache_Get c s k =
     Inr (if HybridCache_hot_lookup c s k \<noteq> None then HybridCache_hot_lookup c s k
          else HybridCache_cold_lookup c s k)"
  by (auto simp: HybridCache_Get_def HybridCache_hot_lookup_shard HybridCache_cold_lookup_def
      HybridCache_getShard_eq array_at_shard_index Let_def atomic_Load_def
      elim!: holds_live_mapE)


lemma HybridCache_inv_hot:
  "HybridCache_inv c s \<Longrightarrow> live s (hot c (nat (shard_index k)))"
  using nat_shard_index_less [of k] by (simp add: HybridCache_inv_def)

lemma HybridCache_inv_cold:
  assumes "HybridCache_inv c s"
  shows "\<exists>m. cold c = map_iface m \<and> live s m \<and> (\<forall>i<32. hot c i \<noteq> m)"
proof -
  from assms have "holds_live_map s (cold c)"
    by (simp add: HybridCache_inv_def)
  then obtain m where m: "cold c = map_iface m" "live s m"
    by (rule holds_live_mapE)
  moreover from assms m have "hot c i \<noteq> m" if "i < 32" for i
    using that by (auto simp: HybridCache_inv_def)
  ultimately show ?thesis by blast
qed

lemma HybridCache_Update_tiers:
  assumes "HybridCache_inv c s"
  shows "\<exists>s'. HybridCache_Update c s k v = Inr s' \<and> HybridCache_inv c s'
           \<and> next_addr s' = next_addr s
           \<and> (\<forall>k'. HybridCache_hot_lookup c s' k'
                  = (if k' = k then v else HybridCache_hot_lookup c s k'))
           \<and> (\<forall>k'. HybridCache_cold_lookup c s' k' = HybridCache_cold_lookup c s k')
           \<and> (\<forall>a. cold c = map_iface (MapAt a) \<longrightarrow> objs s' a = objs s a)
           \<and> (\<forall>a. MapAt a \<noteq> hot c (nat (shard_index k)) \<longrightarrow> objs s' a = objs s a)"
proof -
  let ?m = "hot c (nat (shard_index k))"
  from assms have "live s ?m" by (rule HybridCache_inv_hot)
  from map_assign_live [OF this, of k v] obtain s' where
      upd: "map_assign s ?m k v = Inr s'" and nxt: "next_addr s' = next_addr s"
      and idx: "\<And>m' k'. map_index s' m' k' = (if m' = ?m \<and> k' = k then v else map_index s m' k')"
      and frame: "\<And>a. MapAt a \<noteq> ?m \<Longrightarrow> objs s' a = objs s a"
    by blast
  from HybridCache_inv_cold [OF assms] obtain cm where cm: "cold c = map_iface cm" "live s cm"
      and sep: "\<And>i. i < 32 \<Longrightarrow> hot c i \<noteq> cm"
    by blast
  have neq: "cm \<noteq> ?m"
    using sep [OF nat_shard_index_less [of k]] by simp
  have "HybridCache_Update c s k v = Inr s'"
    by (simp add: HybridCache_Update_shard upd)
  moreover have "HybridCache_inv c s'"
    using assms by (simp add: HybridCache_inv_def live_same_next [OF nxt] cm)
  moreover have "HybridCache_hot_lookup c s' k'
      = (if k' = k then v else HybridCache_hot_lookup c s k')" for k'
    by (simp add: HybridCache_hot_lookup_shard idx)
  moreover have "HybridCache_cold_lookup c s' k' = HybridCache_cold_lookup c s k'" for k'
    using neq by (simp add: HybridCache_cold_lookup_def atomic_Load_def cm idx)
  moreover have "objs s' a = objs s a" if "cold c = map_iface (MapAt a)" for a
    using that cm neq by (intro frame) auto
  ultimately show ?thesis
    using nxt frame by (intro exI [of _ s']) simp
qed

lemma HybridCache_UpdateCold_tiers:
  assumes "HybridCache_inv c s"
  shows "\<exists>c' s'. HybridCache_UpdateCold c s k v = Inr (c', s') \<and> HybridCache_inv c' s'
           \<and> hot c' = hot c
           \<and> cold c' = map_iface (MapAt (next_addr s))
           \<and> next_addr s' = Suc (next_addr s)
           \<and> (\<forall>a. a < next_addr s \<longrightarrow> objs s' a = objs s a)
           \<and> (\<forall>k'. HybridCache_hot_lookup c' s' k' = HybridCache_hot_lookup c s k')
           \<and> (\<forall>k'. HybridCache_cold_lookup c' s' k'
                  = (if k' = k then v else HybridCache_cold_lookup c s k'))"
proof -
  from HybridCache_inv_cold [OF assms] obtain old where
      old: "cold c = map_iface old" and live: "live s old"
    by blast
  from copy_with_live [OF live, of k v] obtain s' where
      cp: "copy_with old s k v = Inr (MapAt (next_addr s), s')"
      and nxt: "next_addr s' = Suc (next_addr s)"
      and frame: "\<And>a. a < next_addr s \<Longrightarrow> objs s' a = objs s a"
      and new: "\<And>k'. map_index s' (MapAt (next_addr s)) k'
                  = (if k' = k then v else map_index s old k')"
      and keep: "\<And>m k'. live s m \<Longrightarrow> map_index s' m k' = map_index s m k'"
    by blast
  let ?c' = "c\<lparr>cold := map_iface (MapAt (next_addr s))\<rparr>"
  have hot_live: "live s (hot c i)" if "i < 32" for i
    using assms that by (simp add: HybridCache_inv_def)
  have "HybridCache_UpdateCold c s k v = Inr (?c', s')"
    by (simp add: HybridCache_UpdateCold_def old cp atomic_Load_def atomic_Store_def)
  moreover have "HybridCache_inv ?c' s'"
  proof -
    have "live s' (hot c i) \<and> MapAt (next_addr s) \<noteq> hot c i" if "i < 32" for i
      using hot_live [OF that] live_grow [of s "hot c i" s'] live_less [of s "hot c i"] nxt
      by auto
    then show ?thesis
      by (simp add: HybridCache_inv_def nxt)
  qed
  moreover have "HybridCache_hot_lookup ?c' s' k' = HybridCache_hot_lookup c s k'" for k'
    by (simp add: HybridCache_hot_lookup_shard keep [OF hot_live [OF nat_shard_index_less]])
  moreover have "HybridCache_cold_lookup ?c' s' k'
      = (if k' = k then v else HybridCache_cold_lookup c s k')" for k'
    by (simp add: HybridCache_cold_lookup_def atomic_Load_def old new del: map_index.simps)
  ultimately show ?thesis
    using nxt frame by (intro exI [of _ ?c'] exI [of _ s']) simp
qed

section \<open>Constructors\<close>





lemma fresh_upto_make_map:
  assumes "fresh_upto i arr s"
  shows "fresh_upto (Suc i) (arr(i := fst (make_map s))) (snd (make_map s))"
  unfolding fresh_upto_def
proof (intro allI impI)
  fix j assume "j < Suc i"
  show "live (snd (make_map s)) ((arr(i := fst (make_map s))) j) \<and>
        (\<forall>k. map_index (snd (make_map s)) ((arr(i := fst (make_map s))) j) k = None)"
  proof (cases "j = i")
    case True
    then show ?thesis
      by (simp add: make_map_def)
  next
    case False
    with \<open>j < Suc i\<close> assms have "live s (arr j)" and "\<And>k. map_index s (arr j) k = None"
      by (simp_all add: fresh_upto_def)
    with False show ?thesis
      by (simp add: make_map_live make_map_index_old)
  qed
qed



lemma NewHybridCache_loop_fresh:
  "fresh_upto i (hot c) s \<Longrightarrow> i \<le> 32 \<Longrightarrow>
   fresh_upto 32 (hot (fst (NewHybridCache_loop i c s))) (snd (NewHybridCache_loop i c s))
   \<and> cold (fst (NewHybridCache_loop i c s)) = cold c"
proof (induction i c s rule: NewHybridCache_loop.induct)
  case (1 i c s)
  show ?case
  proof (cases "i < 32")
    case True
    obtain m s' where mk: "make_map s = (m, s')"
      by (cases "make_map s")
    have "fresh_upto (Suc i) (hot (c\<lparr>hot := (hot c)(i := m)\<rparr>)) s'"
      using fresh_upto_make_map [OF "1.prems"(1)] mk by simp
    moreover have "Suc i \<le> 32"
      using True by simp
    ultimately have "fresh_upto 32
        (hot (fst (NewHybridCache_loop (Suc i) (c\<lparr>hot := (hot c)(i := m)\<rparr>) s')))
        (snd (NewHybridCache_loop (Suc i) (c\<lparr>hot := (hot c)(i := m)\<rparr>) s'))
      \<and> cold (fst (NewHybridCache_loop (Suc i) (c\<lparr>hot := (hot c)(i := m)\<rparr>) s'))
        = cold (c\<lparr>hot := (hot c)(i := m)\<rparr>)"
      using True mk by (intro "1.IH") (simp_all add: fun_upd_def)
    then show ?thesis
      using True mk by (subst (1 2 3) NewHybridCache_loop.simps) simp
  next
    case False
    with "1.prems" have "i = 32" by simp
    with "1.prems" show ?thesis
      by (subst (1 2 3) NewHybridCache_loop.simps) simp
  qed
qed

lemma NewHybridCache_inv:
  assumes "NewHybridCache s = (c, s')"
  shows "HybridCache_inv c s' \<and> (\<forall>k. HybridCache_hot_lookup c s' k = None)
         \<and> (\<forall>k. HybridCache_cold_lookup c s' k = None)"
proof -
  let ?c0 = "\<lparr>hot = (\<lambda>i. NilMap), cold = nil_iface\<rparr>"
  obtain c1 s1 where loop: "NewHybridCache_loop 0 ?c0 s = (c1, s1)"
    by (cases "NewHybridCache_loop 0 ?c0 s")
  have "fresh_upto 0 (hot ?c0) s"
    by (simp add: fresh_upto_def)
  from NewHybridCache_loop_fresh [OF this, of ] loop
  have fresh: "fresh_upto 32 (hot c1) s1" by simp
  have c: "c = c1\<lparr>cold := map_iface (MapAt (next_addr s1))\<rparr>" and s': "s' = snd (make_map s1)"
    using assms loop by (simp_all add: NewHybridCache_def make_map_def atomic_Store_def)
  have hot: "live s' (hot c i) \<and> (\<forall>k. map_index s' (hot c i) k = None)
      \<and> cold c \<noteq> map_iface (hot c i)" if "i < 32" for i
  proof -
    from fresh that have "live s1 (hot c1 i)" and "\<And>k. map_index s1 (hot c1 i) k = None"
      by (simp_all add: fresh_upto_def)
    then show ?thesis
      using live_less [of s1 "hot c1 i"]
      by (auto simp add: c s' make_map_live make_map_index_old)
  qed
  have "HybridCache_inv c s'"
    using hot by (simp add: HybridCache_inv_def) (simp add: c s' make_map_def)
  moreover have "HybridCache_hot_lookup c s' k = None" for k
    using hot [OF nat_shard_index_less] by (simp add: HybridCache_hot_lookup_shard)
  moreover have "HybridCache_cold_lookup c s' k = None" for k
    by (simp add: HybridCache_cold_lookup_def c s' atomic_Load_def make_map_def)
  ultimately show ?thesis by simp
qed

section \<open>Sequences of writes\<close>


lemma last_write_Nil: "last_write [] k = None"
  by (simp add: last_write_def)























section \<open>The claims about single calls\<close>



section \<open>The claims about sequences of calls\<close>
















section \<open>The claims about copy-on-write and the two tiers\<close>

lemma copy_with_table:
  assumes "a < next_addr s"
  shows "\<exists>s'. copy_with (MapAt a) s k v = Inr (MapAt (next_addr s), s')
           \<and> DAList.lookup (objs s' (next_addr s)) = (DAList.lookup (objs s a))(k \<mapsto> v)
           \<and> (\<forall>b. b < next_addr s \<longrightarrow> objs s' b = objs s b)"
proof -
  from assms have "a \<noteq> next_addr s" by simp
  from copy_with_MapAt [OF this, of k v] show ?thesis
    by (auto simp: fun_eq_iff DAList.lookup_update lookup_copy_of_entries)
qed

text \<open>
  C5. \<open>COWCache.Update(id, record)\<close> on a cache whose snapshot is the map object at
  \<open>a\<close>: it returns; the cache then refers to a map object at a new address; that
  object holds the entries of the old snapshot with \<open>id\<close> set to the record; \<open>Get(id)\<close>
  returns the record and \<open>Get\<close> of any other key returns what it returned before. No map
  object that existed before is changed, the old snapshot among them: a reader that still
  holds it reads what it read before.
\<close>

theorem COWCache_Update_copies_and_publishes:
  assumes "COWCache.disks c = map_iface (MapAt a)" and "a < next_addr s"
  shows "\<exists>c' s'. COWCache_Update c s ident status = Inr (c', s')
           \<and> COWCache.disks c' = map_iface (MapAt (next_addr s))
           \<and> next_addr s \<noteq> a
           \<and> DAList.lookup (objs s' (next_addr s)) = (DAList.lookup (objs s a))(ident \<mapsto> status)
           \<and> COWCache_Get c' s' ident = Inr status
           \<and> (\<forall>k'. k' \<noteq> ident \<longrightarrow> COWCache_Get c' s' k' = COWCache_Get c s k')
           \<and> (\<forall>b. b < next_addr s \<longrightarrow> objs s' b = objs s b)
           \<and> objs s' a = objs s a
           \<and> (\<forall>k'. COWCache_Get c s' k' = COWCache_Get c s k')"
proof -
  from assms have inv: "COWCache_inv c s"
    by (simp add: COWCache_inv_def)
  from COWCache_Update_Get [OF inv, of ident status] obtain c' s' where
      upd: "COWCache_Update c s ident status = Inr (c', s')"
      and new: "COWCache.disks c' = map_iface (MapAt (next_addr s))"
      and frame: "\<And>b. b < next_addr s \<Longrightarrow> objs s' b = objs s b"
      and get: "\<And>k'. COWCache_Get c' s' k' = (if k' = ident then Inr status else COWCache_Get c s k')"
      and old: "\<And>k'. COWCache_Get c s' k' = COWCache_Get c s k'"
    by blast
  from copy_with_table [OF assms(2), of ident status] obtain s2 where
      cp: "copy_with (MapAt a) s ident status = Inr (MapAt (next_addr s), s2)"
      and table: "DAList.lookup (objs s2 (next_addr s)) = (DAList.lookup (objs s a))(ident \<mapsto> status)"
    by blast
  from upd cp have "s' = s2"
    by (simp add: COWCache_Update_def assms(1) atomic_Load_def)
  with table have "DAList.lookup (objs s' (next_addr s))
      = (DAList.lookup (objs s a))(ident \<mapsto> status)"
    by simp
  with upd new frame get old assms(2) show ?thesis
    by (intro exI [of _ c'] exI [of _ s']) simp
qed

theorem COWCache_Update_copies_and_publishes_witness:
  "COWCache.disks (fst (NewCOWCache empty_store)) = map_iface (MapAt 0)
   \<and> (0 :: nat) < next_addr (snd (NewCOWCache empty_store))
   \<and> (\<exists>c' s'. COWCache_Update (fst (NewCOWCache empty_store)) (snd (NewCOWCache empty_store))
                  ''disk-1'' (Some test_status) = Inr (c', s')
           \<and> COWCache.disks c' = map_iface (MapAt 1)
           \<and> DAList.lookup (objs s' 1) ''disk-1'' = Some (Some test_status)
           \<and> COWCache_Get c' s' ''disk-1'' = Inr (Some test_status)
           \<and> COWCache_Get c' s' ''disk-2'' = Inr None
           \<and> objs s' 0 = DAList.empty
           \<and> COWCache_Get (fst (NewCOWCache empty_store)) s' ''disk-1'' = Inr None)"
proof -
  have 1: "COWCache.disks (fst (NewCOWCache empty_store)) = map_iface (MapAt 0)"
    by (simp add: NewCOWCache_def make_map_def empty_store_def atomic_Store_def)
  have 2: "(0 :: nat) < next_addr (snd (NewCOWCache empty_store))"
    by (simp add: NewCOWCache_def make_map_def empty_store_def)
  have 3: "next_addr (snd (NewCOWCache empty_store)) = 1"
    "objs (snd (NewCOWCache empty_store)) 0 = DAList.empty"
    "COWCache_Get (fst (NewCOWCache empty_store)) (snd (NewCOWCache empty_store)) k = Inr None"
    for k
    by (simp_all add: NewCOWCache_def make_map_def empty_store_def COWCache_Get_def
        atomic_Store_def atomic_Load_def)
  from COWCache_Update_copies_and_publishes [OF 1 2, of "''disk-1''" "Some test_status"]
  obtain c' s' where
      "COWCache_Update (fst (NewCOWCache empty_store)) (snd (NewCOWCache empty_store))
         ''disk-1'' (Some test_status) = Inr (c', s')"
      "COWCache.disks c' = map_iface (MapAt 1)"
      "DAList.lookup (objs s' 1)
         = (DAList.lookup (objs (snd (NewCOWCache empty_store)) 0))(''disk-1'' \<mapsto> Some test_status)"
      "COWCache_Get c' s' ''disk-1'' = Inr (Some test_status)"
      "COWCache_Get c' s' ''disk-2'' = Inr None"
      "objs s' 0 = DAList.empty"
      "COWCache_Get (fst (NewCOWCache empty_store)) s' ''disk-1'' = Inr None"
    unfolding 3 by auto
  with 1 2 show ?thesis
    by (intro conjI exI [of _ c'] exI [of _ s']) simp_all
qed



text \<open>
  C7. On a hybrid cache, \<open>Update\<close> writes one map object, the hot shard of the id: every
  other map object is as before, the cold snapshot among them, and the cache still refers
  to the same hot shards and the same cold snapshot, since \<open>Update\<close> assigns no field of
  the cache. \<open>UpdateCold\<close> leaves the array of hot shards and every map object that
  existed before as they were, so every hot shard is unchanged; it only makes the cold
  \<open>atomic.Value\<close> refer to a new map object.
\<close>

theorem HybridCache_tiers_are_separate:
  assumes "HybridCache_inv c s"
  shows "(\<exists>s'. HybridCache_Update c s ident status = Inr s'
            \<and> (\<forall>a. MapAt a \<noteq> hot c (nat (HybridCache_getShard c ident)) \<longrightarrow> objs s' a = objs s a)
            \<and> (\<forall>a. cold c = map_iface (MapAt a) \<longrightarrow> objs s' a = objs s a)
            \<and> (\<forall>k. HybridCache_cold_lookup c s' k = HybridCache_cold_lookup c s k))
       \<and> (\<exists>c' s'. HybridCache_UpdateCold c s ident status = Inr (c', s')
            \<and> hot c' = hot c
            \<and> (\<forall>a. a < next_addr s \<longrightarrow> objs s' a = objs s a)
            \<and> (\<forall>i a. i < 32 \<and> hot c i = MapAt a \<longrightarrow> objs s' a = objs s a)
            \<and> (\<forall>k. HybridCache_hot_lookup c' s' k = HybridCache_hot_lookup c s k))"
proof (rule conjI)
  from HybridCache_Update_tiers [OF assms, of ident status]
  show "\<exists>s'. HybridCache_Update c s ident status = Inr s'
            \<and> (\<forall>a. MapAt a \<noteq> hot c (nat (HybridCache_getShard c ident)) \<longrightarrow> objs s' a = objs s a)
            \<and> (\<forall>a. cold c = map_iface (MapAt a) \<longrightarrow> objs s' a = objs s a)
            \<and> (\<forall>k. HybridCache_cold_lookup c s' k = HybridCache_cold_lookup c s k)"
    unfolding HybridCache_getShard_eq by blast
next
  from HybridCache_UpdateCold_tiers [OF assms, of ident status] obtain c' s' where
      upd: "HybridCache_UpdateCold c s ident status = Inr (c', s')"
      and hot: "hot c' = hot c"
      and frame: "\<And>a. a < next_addr s \<Longrightarrow> objs s' a = objs s a"
      and look: "\<And>k. HybridCache_hot_lookup c' s' k = HybridCache_hot_lookup c s k"
    by blast
  have "objs s' a = objs s a" if "i < 32" "hot c i = MapAt a" for i a
  proof -
    from assms that(1) have "live s (hot c i)"
      by (simp add: HybridCache_inv_def)
    with that(2) show ?thesis
      by (simp add: frame)
  qed
  with upd hot frame look
  show "\<exists>c' s'. HybridCache_UpdateCold c s ident status = Inr (c', s')
            \<and> hot c' = hot c
            \<and> (\<forall>a. a < next_addr s \<longrightarrow> objs s' a = objs s a)
            \<and> (\<forall>i a. i < 32 \<and> hot c i = MapAt a \<longrightarrow> objs s' a = objs s a)
            \<and> (\<forall>k. HybridCache_hot_lookup c' s' k = HybridCache_hot_lookup c s k)"
    by (intro exI [of _ c'] exI [of _ s']) blast
qed

theorem HybridCache_tiers_are_separate_witness:
  "HybridCache_inv (fst (NewHybridCache empty_store)) (snd (NewHybridCache empty_store))
   \<and> (\<exists>s'. HybridCache_Update (fst (NewHybridCache empty_store))
                (snd (NewHybridCache empty_store)) ''disk-1'' (Some test_status) = Inr s'
           \<and> HybridCache_cold_lookup (fst (NewHybridCache empty_store)) s' ''disk-1''
             = HybridCache_cold_lookup (fst (NewHybridCache empty_store))
                 (snd (NewHybridCache empty_store)) ''disk-1'')
   \<and> (\<exists>c' s'. HybridCache_UpdateCold (fst (NewHybridCache empty_store))
                (snd (NewHybridCache empty_store)) ''disk-1'' (Some test_status) = Inr (c', s')
           \<and> hot c' = hot (fst (NewHybridCache empty_store))
           \<and> HybridCache_hot_lookup c' s' ''disk-1''
             = HybridCache_hot_lookup (fst (NewHybridCache empty_store))
                 (snd (NewHybridCache empty_store)) ''disk-1'')"
proof -
  have inv: "HybridCache_inv (fst (NewHybridCache empty_store)) (snd (NewHybridCache empty_store))"
    using NewHybridCache_inv [OF prod.collapse [symmetric]] by blast
  from inv HybridCache_tiers_are_separate [OF inv, of "''disk-1''" "Some test_status"]
  show ?thesis by blast
qed

section \<open>Concurrent writers\<close>

lemma COWCache_Update_steps:
  "(writer_step ^^ 3) ((COWCache.disks c, s), Called ident status) =
     (case COWCache_Update c s ident status of
        Inl e \<Rightarrow> ((COWCache.disks c, s), Panicked e)
      | Inr (c', s') \<Rightarrow> ((COWCache.disks c', s'), Returned))"
  by (simp add: numeral_3_eq_3 COWCache_Update_def split: sum.splits prod.splits)

lemma HybridCache_UpdateCold_steps:
  "(writer_step ^^ 3) ((cold c, s), Called ident status) =
     (case HybridCache_UpdateCold c s ident status of
        Inl e \<Rightarrow> ((cold c, s), Panicked e)
      | Inr (c', s') \<Rightarrow> ((cold c', s'), Returned))"
  by (simp add: numeral_3_eq_3 HybridCache_UpdateCold_def split: sum.splits prod.splits)

lemma writer_ok_keep:
  assumes "writer_ok s k vs w" and "next_addr s \<le> next_addr s'"
    and "\<And>m k'. live s m \<Longrightarrow> map_index s' m k' = map_index s m k'"
  shows "writer_ok s' k vs w"
  using assms by (cases w) (auto intro: live_grow)

lemma snapshot_Get_cell:
  "snapshot_Get ((map_iface m, s), ws) k = Inr (map_index s m k)"
  by (simp add: snapshot_Get_def COWCache_Get_def atomic_Load_def)

lemma list_all_update:
  "list_all P ws \<Longrightarrow> P w \<Longrightarrow> list_all P (ws[i := w])"
  by (auto simp: list_all_iff dest: set_update_subset_insert [THEN subsetD])

lemma list_ex_update:
  "list_ex P (ws[i := w]) \<Longrightarrow> \<not> P w \<Longrightarrow> list_ex P ws"
  by (auto simp: list_ex_iff dest: set_update_subset_insert [THEN subsetD])

lemma race_inv_step:
  assumes "race_inv k vs st"
  shows "race_inv k vs (schedule_step i st)"
proof -
  obtain cell s ws where st: "st = ((cell, s), ws)"
    by (cases st) auto
  from assms obtain m where cell: "cell = map_iface m" and m: "live s m"
    and ok: "list_all (writer_ok s k vs) ws"
    and pub: "list_ex (\<lambda>w. w = Returned) ws \<Longrightarrow> map_index s m k \<in> Some ` set vs"
    by (auto simp: race_inv_def st snapshot_Get_cell elim!: holds_live_mapE)
  show ?thesis
  proof (cases "i < length ws")
    case False
    with assms show ?thesis by (simp add: st)
  next
    case True
    with ok have wi: "writer_ok s k vs (ws ! i)"
      by (simp add: list_all_length)
    show ?thesis
    proof (cases "ws ! i")
      case (Called ident status)
      with wi True ok m pub show ?thesis
        by (auto simp: st cell race_inv_def snapshot_Get_cell atomic_Load_def
            intro!: list_all_update dest!: list_ex_update)
    next
      case (Loaded ident status old)
      with wi have old: "live s old" and args: "ident = k" "status \<in> Some ` set vs"
        by simp_all
      from copy_with_live [OF old, of ident status] obtain s' where
          cp: "copy_with old s ident status = Inr (MapAt (next_addr s), s')"
          and nxt: "next_addr s' = Suc (next_addr s)"
          and new: "\<And>k'. map_index s' (MapAt (next_addr s)) k'
                  = (if k' = ident then status else map_index s old k')"
          and keep: "\<And>m k'. live s m \<Longrightarrow> map_index s' m k' = map_index s m k'"
        by blast
      have step: "schedule_step i st = ((cell, s'), ws[i := Copied (MapAt (next_addr s))])"
        using True Loaded cp by (simp add: st)
      have "writer_ok s' k vs w" if "writer_ok s k vs w" for w
        by (rule writer_ok_keep [OF that _ keep]) (simp_all add: nxt)
      with ok have ok': "list_all (writer_ok s' k vs) ws"
        by (simp add: list_all_iff)
      have "writer_ok s' k vs (Copied (MapAt (next_addr s)))"
        using args by (simp add: nxt new del: map_index.simps)
      with ok' have "list_all (writer_ok s' k vs) (ws[i := Copied (MapAt (next_addr s))])"
        by (rule list_all_update)
      moreover have "live s' m"
        using m nxt by (auto intro: live_grow)
      moreover have "map_index s' m k \<in> Some ` set vs"
        if "list_ex (\<lambda>w. w = Returned) (ws[i := Copied (MapAt (next_addr s))])"
        using list_ex_update [OF that] pub keep [OF m] by simp
      ultimately show ?thesis
        unfolding step by (simp add: race_inv_def cell snapshot_Get_cell del: map_index.simps) blast
    next
      case (Copied new)
      with wi have new: "live s new" "map_index s new k \<in> Some ` set vs"
        by simp_all
      have step: "schedule_step i st = ((map_iface new, s), ws[i := Returned])"
        using True Copied by (simp add: st atomic_Store_def)
      from ok have "list_all (writer_ok s k vs) (ws[i := Returned])"
        by (rule list_all_update) simp
      with new show ?thesis
        unfolding step by (simp add: race_inv_def snapshot_Get_cell del: map_index.simps) blast
    next
      case Returned
      then have "ws[i := Returned] = ws"
        by (metis list_update_id)
      with assms True Returned show ?thesis
        by (simp add: st)
    next
      case (Panicked e)
      with wi show ?thesis by simp
    qed
  qed
qed

lemma race_inv_run: "race_inv k vs st \<Longrightarrow> race_inv k vs (run_schedule sched st)"
  unfolding run_schedule_def
  by (induction sched arbitrary: st) (simp_all add: race_inv_step)

lemma race_inv_init:
  assumes "holds_live_map s cell"
  shows "race_inv k vs ((cell, s), map (\<lambda>v. Called k (Some v)) vs)"
  using assms by (auto simp: race_inv_def list_all_iff list_ex_iff)

lemma run_schedule_length: "length (snd (run_schedule sched st)) = length (snd st)"
  unfolding run_schedule_def
proof (induction sched arbitrary: st)
  case Nil
  then show ?case by simp
next
  case (Cons i sched)
  obtain sh ws where st: "st = (sh, ws)" by (cases st)
  have "length (snd (schedule_step i st)) = length (snd st)"
    by (simp add: st split: prod.splits)
  with Cons show ?case by simp
qed

lemma run_schedule_no_panic:
  assumes "race_inv k vs st"
  shows "Panicked e \<notin> set (snd (run_schedule sched st))"
proof -
  obtain cell s ws where fin: "run_schedule sched st = ((cell, s), ws)"
    by (cases "run_schedule sched st") auto
  from race_inv_run [OF assms, of sched] have ok: "list_all (writer_ok s k vs) ws"
    by (simp add: fin race_inv_def)
  have "Panicked e \<notin> set ws"
  proof
    assume "Panicked e \<in> set ws"
    with ok have "writer_ok s k vs (Panicked e)"
      unfolding list_all_iff by blast
    then show False by simp
  qed
  then show ?thesis
    by (simp add: fin)
qed

text \<open>
  C9. Any number of writers, at least one, each in a call of \<open>COWCache.Update\<close> (or of
  \<open>HybridCache.UpdateCold\<close>) for the same key with a record of its own, their loads,
  copies and stores interleaved in any order: no call panics, and once all have returned
  the snapshot holds for the key the record of one of the writers, whole. Which one is
  open: it is the record of the writer whose store came last.
\<close>

theorem concurrent_writers_leave_one_written_record:
  assumes "holds_live_map s cell" and "vs \<noteq> []"
    and "final = run_schedule sched ((cell, s), map (\<lambda>v. Called k (Some v)) vs)"
    and "all_returned final"
  shows "(\<exists>v \<in> set vs.
            COWCache_Get \<lparr>COWCache.disks = fst (fst final)\<rparr> (snd (fst final)) k = Inr (Some v)
          \<and> HybridCache_cold_lookup (h\<lparr>cold := fst (fst final)\<rparr>) (snd (fst final)) k = Some v)
       \<and> (\<forall>e. Panicked e \<notin> set (snd final))"
proof -
  let ?init = "((cell, s), map (\<lambda>v. Called k (Some v)) vs)"
  have init: "race_inv k vs ?init"
    using assms(1) by (rule race_inv_init)
  then have inv: "race_inv k vs final"
    unfolding assms(3) by (rule race_inv_run)
  have "length (snd final) = length vs"
    unfolding assms(3) by (simp add: run_schedule_length)
  with assms(2) obtain w where "w \<in> set (snd final)"
    by (cases "snd final") auto
  with assms(4) have "list_ex (\<lambda>w. w = Returned) (snd final)"
    by (auto simp: all_returned_def list_all_iff list_ex_iff)
  with inv obtain v where v: "v \<in> set vs" and get: "snapshot_Get final k = Inr (Some v)"
    by (cases final) (auto simp: race_inv_def)
  from inv obtain m where m: "fst (fst final) = map_iface m"
    by (cases final) (auto simp: race_inv_def elim!: holds_live_mapE)
  from get have "COWCache_Get \<lparr>COWCache.disks = fst (fst final)\<rparr> (snd (fst final)) k
      = Inr (Some v)"
    by (simp add: snapshot_Get_def)
  moreover from this
  have "HybridCache_cold_lookup (h\<lparr>cold := fst (fst final)\<rparr>) (snd (fst final)) k = Some v"
    by (simp add: HybridCache_cold_lookup_def COWCache_Get_def m atomic_Load_def)
  moreover have "Panicked e \<notin> set (snd final)" for e
    unfolding assms(3) using init by (rule run_schedule_no_panic)
  ultimately show ?thesis
    using v by blast
qed

lemmas race_eval = run_schedule_def all_returned_def snapshot_Get_def COWCache_Get_def
  atomic_Load_def atomic_Store_def copy_with_def make_map_def
  DAList.empty.rep_eq DAList.update.rep_eq NewCOWCache_def empty_store_def

theorem concurrent_writers_leave_one_written_record_witness:
  "holds_live_map (snd (NewCOWCache empty_store)) (COWCache.disks (fst (NewCOWCache empty_store)))
   \<and> [test_status, worn_status] \<noteq> []
   \<and> all_returned (run_schedule [0, Suc 0, Suc 0, Suc 0, 0, 0]
        ((COWCache.disks (fst (NewCOWCache empty_store)), snd (NewCOWCache empty_store)),
         map (\<lambda>v. Called ''disk-1'' (Some v)) [test_status, worn_status]))
   \<and> (\<exists>v \<in> set [test_status, worn_status].
         COWCache_Get
           \<lparr>COWCache.disks = fst (fst (run_schedule [0, Suc 0, Suc 0, Suc 0, 0, 0]
              ((COWCache.disks (fst (NewCOWCache empty_store)), snd (NewCOWCache empty_store)),
               map (\<lambda>v. Called ''disk-1'' (Some v)) [test_status, worn_status])))\<rparr>
           (snd (fst (run_schedule [0, Suc 0, Suc 0, Suc 0, 0, 0]
              ((COWCache.disks (fst (NewCOWCache empty_store)), snd (NewCOWCache empty_store)),
               map (\<lambda>v. Called ''disk-1'' (Some v)) [test_status, worn_status]))))
           ''disk-1'' = Inr (Some v))"
proof -
  let ?final = "run_schedule [0, Suc 0, Suc 0, Suc 0, 0, 0]
        ((COWCache.disks (fst (NewCOWCache empty_store)), snd (NewCOWCache empty_store)),
         map (\<lambda>v. Called ''disk-1'' (Some v)) [test_status, worn_status])"
  have 1: "holds_live_map (snd (NewCOWCache empty_store))
      (COWCache.disks (fst (NewCOWCache empty_store)))"
    by (simp add: race_eval)
  have 2: "[test_status, worn_status] \<noteq> []"
    by simp
  have 3: "all_returned ?final"
    by (simp add: race_eval)
  from concurrent_writers_leave_one_written_record [OF 1 2 refl 3] 1 2 3
  show ?thesis
    by blast
qed

subsection \<open>The lost update\<close>

text \<open>
  Two writers of two keys on a fresh cache. When both load before either stores, the
  store that lands last publishes a copy of the empty snapshot with its own key only: the
  other write is gone though its call returned. One after the other, both writes stay.
\<close>

lemma COWCache_concurrent_Updates_lose_a_write:
  "all_returned (run_schedule [0, Suc 0, 0, 0, Suc 0, Suc 0]
     ((COWCache.disks (fst (NewCOWCache empty_store)), snd (NewCOWCache empty_store)),
      [Called ''disk-1'' (Some test_status), Called ''disk-2'' (Some other_status)]))
   \<and> snapshot_Get (run_schedule [0, Suc 0, 0, 0, Suc 0, Suc 0]
     ((COWCache.disks (fst (NewCOWCache empty_store)), snd (NewCOWCache empty_store)),
      [Called ''disk-1'' (Some test_status), Called ''disk-2'' (Some other_status)])) ''disk-1''
     = Inr None
   \<and> snapshot_Get (run_schedule [0, Suc 0, 0, 0, Suc 0, Suc 0]
     ((COWCache.disks (fst (NewCOWCache empty_store)), snd (NewCOWCache empty_store)),
      [Called ''disk-1'' (Some test_status), Called ''disk-2'' (Some other_status)])) ''disk-2''
     = Inr (Some other_status)
   \<and> snapshot_Get (run_schedule [0, 0, 0, Suc 0, Suc 0, Suc 0]
     ((COWCache.disks (fst (NewCOWCache empty_store)), snd (NewCOWCache empty_store)),
      [Called ''disk-1'' (Some test_status), Called ''disk-2'' (Some other_status)])) ''disk-1''
     = Inr (Some test_status)"
  by (simp add: race_eval)

text \<open>
  Two writers of one key: the record that stays is that of the store that lands last,
  whichever call began first.
\<close>

lemma COWCache_concurrent_Updates_either_record_stays:
  "snapshot_Get (run_schedule [0, Suc 0, Suc 0, Suc 0, 0, 0]
     ((COWCache.disks (fst (NewCOWCache empty_store)), snd (NewCOWCache empty_store)),
      [Called ''disk-1'' (Some test_status), Called ''disk-1'' (Some worn_status)])) ''disk-1''
     = Inr (Some test_status)
   \<and> snapshot_Get (run_schedule [0, Suc 0, 0, 0, Suc 0, Suc 0]
     ((COWCache.disks (fst (NewCOWCache empty_store)), snd (NewCOWCache empty_store)),
      [Called ''disk-1'' (Some test_status), Called ''disk-1'' (Some worn_status)])) ''disk-1''
     = Inr (Some worn_status)"
  by (simp add: race_eval)

section \<open>Edges of the contract\<close>

text \<open>A spin lock that is held when a sequential caller arrives is never acquired.\<close>

lemma spin_acquire_held: "lock c \<noteq> 0 \<Longrightarrow> spin_acquire c = None"
proof (rule ccontr)
  assume held: "lock c \<noteq> 0" and "spin_acquire c \<noteq> None"
  then obtain y where y: "spin_acquire c = Some y" by auto
  have "lock c = 0"
    by (rule spin_acquire.raw_induct [where P = "\<lambda>c y. lock c = 0", OF _ y])
      (auto split: if_splits)
  with held show False by simp
qed

text \<open>
  \<open>Update\<close> accepts a nil pointer. The hybrid \<open>Get\<close> takes a nil in the hot tier for a
  miss and answers from the cold tier.
\<close>

lemma HybridCache_Update_nil_reads_cold:
  assumes "HybridCache_inv c s"
  shows "\<exists>s'. HybridCache_Update c s ident None = Inr s'
           \<and> HybridCache_Get c s' ident = Inr (HybridCache_cold_lookup c s ident)"
proof -
  from HybridCache_Update_tiers [OF assms, of ident None] obtain s' where
      "HybridCache_Update c s ident None = Inr s'" "HybridCache_inv c s'"
      "HybridCache_hot_lookup c s' ident = None"
      "HybridCache_cold_lookup c s' ident = HybridCache_cold_lookup c s ident"
    by auto
  then show ?thesis
    by (intro exI [of _ s']) (simp add: HybridCache_Get_tiers HybridCache_inv_def)
qed

text \<open>
  The order in which \<open>range\<close> visits the old snapshot does not matter: any two orders
  of its entries give the copy the same contents.
\<close>

lemma copy_order_irrelevant:
  assumes "distinct (map fst kvs)" and "distinct (map fst kvs')" and "set kvs' = set kvs"
  shows "DAList.lookup (fold (\<lambda>(k, v). DAList.update k v) kvs' m)
       = DAList.lookup (fold (\<lambda>(k, v). DAList.update k v) kvs m)"
proof -
  from assms have "map_of kvs' = map_of kvs"
    by (simp add: map_of_inject_set)
  with assms show ?thesis
    by (simp add: lookup_fold_update)
qed

text \<open>
  The zero value of a cache type, not made by its constructor, has nil maps and an empty
  \<open>atomic.Value\<close>: reads of a nil map find nothing, writes to it and type assertions
  on the empty value panic. The well-formedness the theorems above assume excludes these.
\<close>

lemma zero_value_caches:
  "MutexCache_Get \<lparr>MutexCache.disks = NilMap\<rparr> s ident = None"
  "MutexCache_Update \<lparr>MutexCache.disks = NilMap\<rparr> s ident status = Inl NilMapAssignment"
  "ShardedCache_Update \<lparr>shards = (\<lambda>i. NilMap)\<rparr> s ident status = Inl NilMapAssignment"
  "COWCache_Get \<lparr>COWCache.disks = nil_iface\<rparr> s ident = Inl InterfaceConversion"
  "COWCache_Update \<lparr>COWCache.disks = nil_iface\<rparr> s ident status = Inl InterfaceConversion"
  "HybridCache_UpdateCold \<lparr>hot = (\<lambda>i. NilMap), cold = nil_iface\<rparr> s ident status
     = Inl InterfaceConversion"
  by (simp_all add: MutexCache_Get_def MutexCache_Update_def ShardedCache_Update_shard
      COWCache_Get_def COWCache_Update_def HybridCache_UpdateCold_def atomic_Load_def)

section \<open>The shard index where int has 32 bits\<close>

lemma sum32a_a: "sum32a_Write New32a ''a'' = 0xe40c292c"
  by (simp add: New32a_def offset32_def prime32_def)

lemma getShard_int32_a: "getShard_int32 ''a'' = - 20"
  unfolding getShard_int32_def Let_def sum32a_a
  by (simp add: sum32a_Sum32_def ShardCount_def smod_int_alt_def)

lemma array_at_negative: "array_at arr (- 20) = Inl IndexOutOfRange"
  by (simp add: array_at_def)

lemma getShard_int64_a: "ShardedCache_getShard c ''a'' = 12"
  unfolding ShardedCache_getShard_def Let_def sum32a_a
  by (simp add: sum32a_Sum32_def ShardCount_def go_rem_def int_of_uint32_def smod_int_alt_def)

text \<open>
  C10. \<open>getShard\<close> does not stay within 0 to 31 for every id: it converts the hash to
  \<open>int\<close> before it takes the remainder, and with \<open>int\<close> at 32 bits a hash whose top bit
  is set becomes negative, and so does the remainder. The id \<open>a\<close> hashes to
  \<open>0xe40c292c\<close>; \<open>getShard\<close> returns \<open>-20\<close>, and \<open>Get\<close> and \<open>Update\<close> of a sharded and
  of a hybrid cache fresh from their constructors panic on indexing the shard array. With
  \<open>int\<close> at 64 bits the same id gives 12.
\<close>

theorem getShard_out_of_bounds_where_int_has_32_bits:
  "sum32a_Sum32 (sum32a_Write New32a ''a'') = 0xe40c292c
   \<and> getShard_int32 ''a'' = - 20
   \<and> \<not> (0 \<le> getShard_int32 ''a'' \<and> getShard_int32 ''a'' < 32)
   \<and> ShardedCache_Get_int32 (fst (NewShardedCache empty_store))
         (snd (NewShardedCache empty_store)) ''a'' = Inl IndexOutOfRange
   \<and> ShardedCache_Update_int32 (fst (NewShardedCache empty_store))
         (snd (NewShardedCache empty_store)) ''a'' (Some test_status) = Inl IndexOutOfRange
   \<and> HybridCache_Get_int32 (fst (NewHybridCache empty_store))
         (snd (NewHybridCache empty_store)) ''a'' = Inl IndexOutOfRange
   \<and> HybridCache_Update_int32 (fst (NewHybridCache empty_store))
         (snd (NewHybridCache empty_store)) ''a'' (Some test_status) = Inl IndexOutOfRange
   \<and> ShardedCache_getShard (fst (NewShardedCache empty_store)) ''a'' = 12"
  by (simp add: sum32a_Sum32_def sum32a_a getShard_int32_a array_at_negative getShard_int64_a
      ShardedCache_Get_int32_def ShardedCache_Update_int32_def HybridCache_Get_int32_def
      HybridCache_Update_int32_def del: sum32a_Write.simps)

end
